theory Spec2Isabelle
  imports Main "HOL-Library.Sublist"
begin

section \<open>Python strings and exceptions\<close>

text \<open>
  A Python \<open>str\<close> is modelled as a \<open>string\<close>: each \<open>char\<close> stands for one code point
  below 256, so \<open>length\<close> counts code points as \<open>len\<close> does. Exceptions are values of
  the type \<open>error\<close>; a function that may raise returns \<open>error + 'a\<close>.
\<close>

datatype error = IndexError | ValueError | OSError

definition isspace :: "char \<Rightarrow> bool" where
  \<comment> \<open>\<open>str.isspace\<close> on one character: the white-space code points below 256\<close>
  "isspace c \<longleftrightarrow>
     c \<in> set [CHR 0x09, CHR 0x0A, CHR 0x0B, CHR 0x0C, CHR 0x0D, CHR 0x1C, CHR 0x1D,
               CHR 0x1E, CHR 0x1F, CHR 0x20, CHR 0x85, CHR 0xA0]"

definition strip :: "string \<Rightarrow> string" where
  \<comment> \<open>\<open>s.strip()\<close>\<close>
  "strip s = rev (dropWhile isspace (rev (dropWhile isspace s)))"

definition index :: "string \<Rightarrow> int \<Rightarrow> error + char" where
  \<comment> \<open>\<open>s[i]\<close>: a negative index counts from the end, an index out of range raises\<close>
  "index s i =
     (let n = int (length s); j = (if i < 0 then n + i else i)
      in if 0 \<le> j \<and> j < n then Inr (s ! nat j) else Inl IndexError)"

definition slice :: "string \<Rightarrow> int \<Rightarrow> int \<Rightarrow> string" where
  \<comment> \<open>\<open>s[a:b]\<close>: negative bounds count from the end, then both are clamped to \<open>[0, len(s)]\<close>\<close>
  "slice s a b =
     (let n = int (length s);
          lo = (if a < 0 then max (n + a) 0 else min a n);
          hi = (if b < 0 then max (n + b) 0 else min b n)
      in take (nat (hi - lo)) (drop (nat lo) s))"

section \<open>Chunking (\<open>2b_process_html_bs4.py\<close>)\<close>

text \<open>
  The \<open>for i in range(min(end + 100, text_len) - 1, end - 100, -1)\<close> loop of
  \<open>chunk_text\<close>: \<open>i\<close> runs downwards while \<open>i > stop\<close>. The condition
  \<open>i > 0 and text[i] in '.!?' and text[i + 1].isspace()\<close> is evaluated left to right
  with short-circuit; on a hit the loop breaks with the new value \<open>i + 1\<close> of \<open>end\<close>.
\<close>

function boundary_search :: "string \<Rightarrow> int \<Rightarrow> int \<Rightarrow> error + int option" where
  "boundary_search body i stop =
     (if i \<le> stop then Inr None
      else if i > 0 then
        (case index body i of
           Inl err \<Rightarrow> Inl err
         | Inr c \<Rightarrow>
             if c \<in> set ''.!?'' then
               (case index body (i + 1) of
                  Inl err \<Rightarrow> Inl err
                | Inr d \<Rightarrow> if isspace d then Inr (Some (i + 1))
                           else boundary_search body (i - 1) stop)
             else boundary_search body (i - 1) stop)
      else boundary_search body (i - 1) stop)"
  by pat_completeness auto
termination
  by (relation "measure (\<lambda>(body, i, stop). nat (i - stop))") auto

text \<open>
  One pass through the body of the \<open>while\<close> loop, from the cursor \<open>start\<close>: the chunk
  (already trimmed) and the value of \<open>end\<close> that becomes the next \<open>start\<close>.
\<close>

definition chunk_step :: "string \<Rightarrow> int \<Rightarrow> int \<Rightarrow> int \<Rightarrow> error + (string \<times> int)" where
  "chunk_step body chunk_size overlap start =
     (let text_len = int (length body);
          end0 = start + chunk_size;
          start1 = (if start > 0 then start - overlap else start)
      in case (if end0 < text_len
               then boundary_search body (min (end0 + 100) text_len - 1) (end0 - 100)
               else Inr None) of
           Inl err \<Rightarrow> Inl err
         | Inr found \<Rightarrow>
             (let end1 = (case found of None \<Rightarrow> end0 | Some j \<Rightarrow> j)
              in Inr (strip (slice body start1 end1), end1)))"

text \<open>
  The \<open>while start < text_len\<close> loop. It does not terminate for every \<open>chunk_size\<close>
  (with \<open>chunk_size = 0\<close> the cursor never moves), so the result is an option:
  \<open>None\<close> when the loop runs forever, \<open>Some (Inl e)\<close> when it raises, and
  \<open>Some (Inr chunks)\<close> when it returns.
\<close>

partial_function (option) chunk_loop ::
  "string \<Rightarrow> int \<Rightarrow> int \<Rightarrow> int \<Rightarrow> string list \<Rightarrow> (error + string list) option" where
  "chunk_loop body chunk_size overlap start chunks =
     (if start < int (length body) then
        (case chunk_step body chunk_size overlap start of
           Inl err \<Rightarrow> Some (Inl err)
         | Inr (chunk, end1) \<Rightarrow>
             chunk_loop body chunk_size overlap end1
               (if chunk \<noteq> [] then chunks @ [chunk] else chunks))
      else Some (Inr chunks))"

definition chunk_text :: "string \<Rightarrow> int \<Rightarrow> int \<Rightarrow> (error + string list) option" where
  "chunk_text body chunk_size overlap = chunk_loop body chunk_size overlap 0 []"

text \<open>
  The hypothesis of the 1500-character scenario: some sentence-terminal character is
  immediately followed by a white-space character.
\<close>

fun has_sentence_end :: "string \<Rightarrow> bool" where
  "has_sentence_end (c # d # cs) \<longleftrightarrow>
     (c \<in> set ''.!?'' \<and> isspace d) \<or> has_sentence_end (d # cs)"
| "has_sentence_end _ \<longleftrightarrow> False"

section \<open>Parsed documents (\<open>bs4\<close>)\<close>

text \<open>
  A parsed document is a tree: text nodes, comments (which \<open>get_text\<close> skips) and
  tags with a name, attributes and children. \<open>find_all\<close> returns the matching tags
  among the descendants of a node in document order; \<open>find\<close> returns the first of
  them, or \<open>None\<close>.
\<close>

datatype node =
    NavigableString string
  | Comment string
  | Tag string "(string \<times> string) list" "node list"

fun name :: "node \<Rightarrow> string" where
  "name (Tag n attrs children) = n"
| "name _ = []"

fun descendants :: "node \<Rightarrow> node list" where
  "descendants (Tag n attrs children) = concat (map (\<lambda>c. c # descendants c) children)"
| "descendants _ = []"

fun is_tag_named :: "string list \<Rightarrow> node \<Rightarrow> bool" where
  "is_tag_named names (Tag n attrs children) \<longleftrightarrow> n \<in> set names"
| "is_tag_named names _ \<longleftrightarrow> False"

definition find_all :: "node \<Rightarrow> string list \<Rightarrow> node list" where
  "find_all node names = filter (is_tag_named names) (descendants node)"

definition find_tag :: "node \<Rightarrow> string \<Rightarrow> node option" where
  "find_tag node nm = (case find_all node [nm] of [] \<Rightarrow> None | t # _ \<Rightarrow> Some t)"

fun get_text :: "node \<Rightarrow> string" where
  "get_text (NavigableString s) = s"
| "get_text (Comment s) = []"
| "get_text (Tag n attrs children) = concat (map get_text children)"

fun get :: "node \<Rightarrow> string \<Rightarrow> string \<Rightarrow> string" where
  "get (Tag n attrs children) key dflt =
     (case map_of attrs key of None \<Rightarrow> dflt | Some v \<Rightarrow> v)"
| "get _ key dflt = dflt"

section \<open>Markdown conversion (\<open>2b_process_html_bs4.py\<close>)\<close>

fun join :: "string \<Rightarrow> string list \<Rightarrow> string" where
  "join sep [] = []"
| "join sep [x] = x"
| "join sep (x # y # ys) = x @ sep @ join sep (y # ys)"

text \<open>
  The three loops of \<open>html_to_markdown\<close>, each giving the lines it appends to
  \<open>markdown_lines\<close>: headings, then paragraphs and lists, then links.
\<close>

definition heading_lines :: "node \<Rightarrow> string list" where
  "heading_lines main_content =
     concat (map (\<lambda>tag.
         let level = of_char (name tag ! 1) - (48::nat)
         in [replicate level CHR ''#'' @ '' '' @ strip (get_text tag), ''''])
       (find_all main_content [''h1'', ''h2'', ''h3'', ''h4'', ''h5'', ''h6'']))"

definition block_lines :: "node \<Rightarrow> string list" where
  "block_lines main_content =
     concat (map (\<lambda>tag.
         if name tag = ''p'' then
           (let text1 = strip (get_text tag) in if text1 \<noteq> [] then [text1, ''''] else [])
         else if name tag \<in> set [''ul'', ''ol''] then
           concat (map (\<lambda>li. let text1 = strip (get_text li)
                              in if text1 \<noteq> [] then [''- '' @ text1] else [])
                     (find_all tag [''li''])) @ ['''']
         else [])
       (find_all main_content [''p'', ''ul'', ''ol'']))"

definition link_lines :: "node \<Rightarrow> string list" where
  "link_lines main_content =
     concat (map (\<lambda>link.
         let text1 = strip (get_text link); href = get link ''href'' ''''
         in if text1 \<noteq> [] \<and> href \<noteq> [] then [''['' @ text1 @ '']('' @ href @ '')''] else [])
       (find_all main_content [''a'']))"

definition main_content :: "node \<Rightarrow> node option" where
  \<comment> \<open>\<open>soup.find('main')\<close>, and \<open>soup.body\<close> when there is none\<close>
  "main_content soup =
     (case find_tag soup ''main'' of Some m \<Rightarrow> Some m | None \<Rightarrow> find_tag soup ''body'')"

definition html_to_markdown :: "node \<Rightarrow> string" where
  "html_to_markdown soup =
     (case main_content soup of
        None \<Rightarrow> ''''
      | Some region \<Rightarrow>
          join ''\<newline>'' (heading_lines region @ block_lines region @ link_lines region))"

text \<open>
  The document of the scenario: \<^verbatim>\<open><main><h2>About Us</h2><p>We build things.</p></main>\<close>
  in the body of an \<open>html\<close> element.
\<close>

definition about_page :: node where
  "about_page =
     Tag ''[document]'' []
       [Tag ''html'' []
         [Tag ''body'' []
           [Tag ''main'' []
             [Tag ''h2'' [] [NavigableString ''About Us''],
              Tag ''p'' [] [NavigableString ''We build things.'']]]]]"


section \<open>String methods used by the crawler\<close>

text \<open>
  \<open>s.replace(old, new)\<close> scans from the left and replaces every occurrence of \<open>old\<close>
  that does not overlap an earlier one; for an empty \<open>old\<close> it puts \<open>new\<close> before
  every character and at the end.
\<close>

function replace_scan :: "string \<Rightarrow> string \<Rightarrow> string \<Rightarrow> string" where
  "replace_scan [] old new = []"
| "replace_scan (c # cs) old new =
     (if old \<noteq> [] \<and> prefix old (c # cs)
      then new @ replace_scan (drop (length old) (c # cs)) old new
      else c # replace_scan cs old new)"
  by pat_completeness auto
termination
  by (relation "measure (\<lambda>(s, old, new). length s)") auto

definition replace :: "string \<Rightarrow> string \<Rightarrow> string \<Rightarrow> string" where
  "replace s old new =
     (if old = [] then new @ concat (map (\<lambda>c. c # new) s) else replace_scan s old new)"

definition strip_chars :: "string \<Rightarrow> string \<Rightarrow> string" where
  \<comment> \<open>\<open>s.strip(chars)\<close>\<close>
  "strip_chars chars s =
     rev (dropWhile (\<lambda>c. c \<in> set chars) (rev (dropWhile (\<lambda>c. c \<in> set chars) s)))"

section \<open>File names (\<open>WebsiteCrawler.save_content\<close>, \<open>1_crawl_site_bs4.py\<close>)\<close>

text \<open>
  The first lines of \<open>save_content\<close>:
  \<^verbatim>\<open>filename = url.replace(self.start_url, '').strip('/')\<close>,
  \<^verbatim>\<open>if not filename: filename = 'index'\<close>,
  \<^verbatim>\<open>filename = filename.replace('/', '_')\<close>.
\<close>

definition filename_of_url :: "string \<Rightarrow> string \<Rightarrow> string" where
  "filename_of_url start_url url =
     (let filename = strip_chars ''/'' (replace url start_url '''');
          filename = (if filename = [] then ''index'' else filename)
      in replace filename ''/'' ''_'')"

text \<open>
  The derivation in the words of the specification: only a leading occurrence of the
  seed address is removed, then the slashes at both ends, then the empty name becomes
  \<open>index\<close>, then every remaining slash becomes an underscore.
\<close>

definition claimed_filename :: "string \<Rightarrow> string \<Rightarrow> string" where
  "claimed_filename start_url url =
     (let rest = (if prefix start_url url then drop (length start_url) url else url);
          name = strip_chars ''/'' rest;
          name = (if name = [] then ''index'' else name)
      in map (\<lambda>c. if c = CHR ''/'' then CHR ''_'' else c) name)"

section \<open>URL parsing (\<open>urllib.parse\<close>)\<close>

text \<open>
  \<open>urlsplit\<close> and \<open>urlparse\<close> of CPython on a \<open>str\<close>, with the default arguments:
  leading control characters and spaces are dropped, tab, carriage return and line
  feed are removed, then the scheme, the network location (up to the first of
  \<open>/\<close>, \<open>?\<close>, \<open>#\<close>), the fragment, the query and, for a scheme that has them, the
  parameters of the last path segment are split off. A network location with an
  opening bracket and no closing one, or the converse, raises \<open>ValueError\<close>. The
  check of the text between two brackets that recent releases add (it raises
  \<open>ValueError\<close> on more inputs) is not part of the model; the other check on the
  network location, \<open>_checknetloc\<close>, never raises on code points below 256.
\<close>

definition ascii_letters :: string where
  "ascii_letters = ''abcdefghijklmnopqrstuvwxyzABCDEFGHIJKLMNOPQRSTUVWXYZ''"

definition scheme_chars :: string where
  "scheme_chars = ascii_letters @ ''0123456789'' @ ''+-.''"

text \<open>
  \<open>s.lower()\<close> on ASCII letters; it is applied to scheme names and media types.
\<close>

definition lower :: "string \<Rightarrow> string" where
  "lower s =
     map (\<lambda>c. case map_of (zip ''ABCDEFGHIJKLMNOPQRSTUVWXYZ'' ''abcdefghijklmnopqrstuvwxyz'') c of
                 None \<Rightarrow> c | Some d \<Rightarrow> d) s"

text \<open>\<open>s.split(c, 1)\<close> for a string \<open>s\<close> that contains the character \<open>c\<close>.\<close>

definition split_first :: "char \<Rightarrow> string \<Rightarrow> string \<times> string" where
  "split_first c s = (takeWhile (\<lambda>x. x \<noteq> c) s, drop 1 (dropWhile (\<lambda>x. x \<noteq> c) s))"

text \<open>\<open>s.split(sep)\<close> for a separator of one character.\<close>

fun split :: "string \<Rightarrow> char \<Rightarrow> string list" where
  "split [] sep = [[]]"
| "split (x # xs) sep =
     (if x = sep then [] # split xs sep
      else (case split xs sep of [] \<Rightarrow> [[x]] | p # ps \<Rightarrow> (x # p) # ps))"

text \<open>
  The scheme: \<open>i = url.find(':')\<close>, and when \<open>i > 0\<close>, the first character is an ASCII
  letter and every character before the colon is in \<open>scheme_chars\<close>, the scheme is
  \<open>url[:i].lower()\<close> and the rest is \<open>url[i+1:]\<close>.
\<close>

definition split_scheme :: "string \<Rightarrow> string \<times> string" where
  "split_scheme url =
     (let head = takeWhile (\<lambda>x. x \<noteq> CHR '':'') url
      in if CHR '':'' \<in> set url \<and> head \<noteq> [] \<and> hd url \<in> set ascii_letters
            \<and> (\<forall>c \<in> set head. c \<in> set scheme_chars)
         then (lower head, drop (length head + 1) url)
         else ('''', url))"

text \<open>\<open>_splitnetloc(url, 2)\<close>.\<close>

definition splitnetloc :: "string \<Rightarrow> string \<times> string" where
  "splitnetloc url =
     (takeWhile (\<lambda>x. x \<notin> set ''/?#'') (drop 2 url),
      dropWhile (\<lambda>x. x \<notin> set ''/?#'') (drop 2 url))"

definition urlsplit :: "string \<Rightarrow> error + (string \<times> string \<times> string \<times> string \<times> string)" where
  "urlsplit url0 =
     (let url = dropWhile (\<lambda>c. of_char c \<le> (32::nat)) url0;
          url = replace (replace (replace url [CHR 0x09] []) [CHR 0x0D] []) [CHR 0x0A] [];
          (scheme, url) = split_scheme url;
          (netloc, url) = (if take 2 url = ''//'' then splitnetloc url else ('''', url))
      in if (CHR ''['' \<in> set netloc \<and> CHR '']'' \<notin> set netloc)
            \<or> (CHR '']'' \<in> set netloc \<and> CHR ''['' \<notin> set netloc)
         then Inl ValueError
         else
           (let (url, fragment) =
                  (if CHR ''#'' \<in> set url then split_first CHR ''#'' url else (url, ''''));
                (url, query) =
                  (if CHR ''?'' \<in> set url then split_first CHR ''?'' url else (url, ''''))
            in Inr (scheme, netloc, url, query, fragment)))"

definition uses_params :: "string list" where
  "uses_params = ['''', ''ftp'', ''hdl'', ''prospero'', ''http'', ''imap'', ''https'', ''shttp'',
                  ''rtsp'', ''rtspu'', ''sip'', ''sips'', ''mms'', ''sftp'', ''tel'']"

text \<open>
  \<open>_splitparams\<close>: the first semicolon at or after the last slash (the first
  semicolon when there is no slash) separates the parameters from the path.
\<close>

definition splitparams :: "string \<Rightarrow> string \<times> string" where
  "splitparams url =
     (if CHR ''/'' \<in> set url then
        (let tail = rev (takeWhile (\<lambda>x. x \<noteq> CHR ''/'') (rev url));
             head = take (length url - length tail) url
         in if CHR '';'' \<in> set tail
            then (head @ fst (split_first CHR '';'' tail), snd (split_first CHR '';'' tail))
            else (url, ''''))
      else split_first CHR '';'' url)"

record ParseResult =
  scheme :: string
  netloc :: string
  path :: string
  params :: string
  query :: string
  fragment :: string

definition urlparse :: "string \<Rightarrow> error + ParseResult" where
  "urlparse url0 =
     (case urlsplit url0 of
        Inl err \<Rightarrow> Inl err
      | Inr (sch, loc, url, qry, frag) \<Rightarrow>
          (let (url, prm) =
                 (if sch \<in> set uses_params \<and> CHR '';'' \<in> set url
                  then splitparams url else (url, ''''))
           in Inr \<lparr>scheme = sch, netloc = loc, path = url, params = prm,
                    query = qry, fragment = frag\<rparr>))"


section \<open>The crawler (\<open>1_crawl_site_bs4.py\<close>)\<close>

text \<open>
  The environment of a crawl: what \<open>requests.get\<close> gives for an address (a response,
  or a \<open>RequestException\<close>), the tables of \<open>mimetypes\<close>, the HTML parser and
  pretty-printer of \<open>bs4\<close>, \<open>urljoin\<close>, and which paths can be written.
\<close>

record response =
  status_code :: int
  content_type_header :: string
  final_url :: string
  body_text :: string
  content :: string

datatype fetch = RequestException | Response response

record world =
  requests_get :: "string \<Rightarrow> fetch"
  guess_type :: "string \<Rightarrow> string option"
  guess_extension :: "string \<Rightarrow> string option"
  parse_html :: "string \<Rightarrow> node"
  prettify :: "node \<Rightarrow> string"
  urljoin :: "string \<Rightarrow> string \<Rightarrow> error + string"
  can_write :: "string \<Rightarrow> bool"

text \<open>
  The attributes of a \<open>WebsiteCrawler\<close> that \<open>__init__\<close> sets and nothing changes
  afterwards.
\<close>

record crawler =
  start_url :: string
  max_depth :: int
  max_downloads :: int
  output_folder :: string
  domain :: string

text \<open>
  What a crawl changes: the attributes \<open>visited_urls\<close> and \<open>download_count\<close>, the
  files written (path and content, in order), the warnings logged, and the
  \<open>requests.get\<close> calls made, each with the \<open>depth\<close> of the \<open>crawl\<close> invocation that
  made it.
\<close>

record state =
  visited_urls :: "string set"
  download_count :: int
  files :: "(string \<times> string) list"
  warnings :: "string list"
  requests :: "(string \<times> int) list"

definition WebsiteCrawler :: "string \<Rightarrow> int \<Rightarrow> int \<Rightarrow> string \<Rightarrow> error + crawler \<times> state" where
  "WebsiteCrawler url0 depth0 downloads0 folder =
     (case urlparse url0 of
        Inl err \<Rightarrow> Inl err
      | Inr parsed \<Rightarrow>
          Inr (\<lparr>start_url = url0, max_depth = depth0, max_downloads = downloads0,
                 output_folder = folder, domain = netloc parsed\<rparr>,
               \<lparr>visited_urls = {}, download_count = 0, files = [], warnings = [],
                 requests = []\<rparr>))"

definition clean_url :: "crawler \<Rightarrow> string \<Rightarrow> error + string option" where
  "clean_url self url0 =
     (let url = replace (strip url0) [CHR 0xA0] []
      in if \<not> (prefix ''http://'' url \<or> prefix ''https://'' url) then Inr None
         else
           (case urlparse url of
              Inl err \<Rightarrow> Inl err
            | Inr parsed \<Rightarrow>
                if length (path parsed) > 500 \<or> CHR '' '' \<in> set (path parsed) then Inr None
                else
                  (let path_parts = split (path parsed) CHR ''/'';
                       clean_parts = filter (\<lambda>part. \<not> sublist (domain self) part) path_parts;
                       clean_path = join ''/'' clean_parts;
                       cleaned = scheme parsed @ ''://'' @ netloc parsed @ clean_path
                   in Inr (Some (if query parsed \<noteq> [] then cleaned @ ''?'' @ query parsed
                                 else cleaned)))))"

definition is_valid_url :: "crawler \<Rightarrow> string \<Rightarrow> bool" where
  "is_valid_url self url =
     (case urlparse url of Inl err \<Rightarrow> False | Inr parsed \<Rightarrow> netloc parsed = domain self)"

definition get_mime_type :: "world \<Rightarrow> response \<Rightarrow> error + string" where
  "get_mime_type w resp =
     (let content_type = lower (hd (split (content_type_header resp) CHR '';''))
      in if content_type \<noteq> [] then Inr content_type
         else
           (case urlparse (final_url resp) of
              Inl err \<Rightarrow> Inl err
            | Inr parsed \<Rightarrow>
                (case guess_type w (path parsed) of
                   None \<Rightarrow> Inr ''application/octet-stream''
                 | Some mime_type \<Rightarrow>
                     Inr (if mime_type \<noteq> [] then mime_type else ''application/octet-stream''))))"

definition os_path_join :: "string \<Rightarrow> string \<Rightarrow> string" where
  "os_path_join a b =
     (if prefix ''/'' b then b
      else if a = [] \<or> last a = CHR ''/'' then a @ b
      else a @ ''/'' @ b)"

definition save_content ::
  "world \<Rightarrow> crawler \<Rightarrow> string \<Rightarrow> response \<Rightarrow> string \<Rightarrow> state \<Rightarrow> error + state" where
  "save_content w self url resp mime_type st =
     (let filename = filename_of_url (start_url self) url;
          (filename, data) =
             (if mime_type = ''text/html''
              then (filename @ ''_text.html'', prettify w (parse_html w (body_text resp)))
              else (filename @ (case guess_extension w mime_type of
                                  None \<Rightarrow> ''.bin''
                                | Some ext \<Rightarrow> if ext \<noteq> [] then ext else ''.bin''),
                    content resp));
          filepath = os_path_join (output_folder self) filename
      in if \<not> can_write w filepath then Inl OSError
         else Inr (st\<lparr>files := files st @ [(filepath, data)],
                      download_count := download_count st + 1\<rparr>))"

text \<open>
  \<open>crawl\<close>, and the \<open>for link in soup.find_all('a')\<close> loop inside it. The result is
  the exception that propagates out of the call, if any, and the state then. A
  \<open>RequestException\<close> from \<open>requests.get\<close> or from \<open>raise_for_status\<close> (status 400 to
  599) is caught and logged; \<open>ValueError\<close> and \<open>OSError\<close> are not caught.
\<close>

function crawl :: "world \<Rightarrow> crawler \<Rightarrow> string \<Rightarrow> int \<Rightarrow> state \<Rightarrow> error option \<times> state"
  and crawl_links ::
    "world \<Rightarrow> crawler \<Rightarrow> string \<Rightarrow> node list \<Rightarrow> int \<Rightarrow> state \<Rightarrow> error option \<times> state"
where
  "crawl w self url0 depth st =
     (if depth > max_depth self \<or> download_count st \<ge> max_downloads self then (None, st)
      else
        (case clean_url self url0 of
           Inl err \<Rightarrow> (Some err, st)
         | Inr None \<Rightarrow> (None, st)
         | Inr (Some url) \<Rightarrow>
             if url = [] \<or> \<not> is_valid_url self url then (None, st)
             else if url \<in> visited_urls st then (None, st)
             else
               (let st = st\<lparr>visited_urls := insert url (visited_urls st),
                             requests := requests st @ [(url, depth)]\<rparr>
                in case requests_get w url of
                     RequestException \<Rightarrow> (None, st\<lparr>warnings := warnings st @ [url]\<rparr>)
                   | Response resp \<Rightarrow>
                       if 400 \<le> status_code resp \<and> status_code resp < 600
                       then (None, st\<lparr>warnings := warnings st @ [url]\<rparr>)
                       else
                         (case get_mime_type w resp of
                            Inl err \<Rightarrow> (Some err, st)
                          | Inr mime_type \<Rightarrow>
                              (case save_content w self url resp mime_type st of
                                 Inl err \<Rightarrow> (Some err, st)
                               | Inr st \<Rightarrow>
                                   if mime_type = ''text/html''
                                   then crawl_links w self url
                                          (find_all (parse_html w (body_text resp)) [''a''])
                                          depth st
                                   else (None, st))))))"
| "crawl_links w self url [] depth st = (None, st)"
| "crawl_links w self url (link # links) depth st =
     (let href = get link ''href'' ''''
      in if href \<noteq> [] then
           (case urljoin w url href of
              Inl err \<Rightarrow> (Some err, st)
            | Inr absolute_url \<Rightarrow>
                (case crawl w self absolute_url (depth + 1) st of
                   (Some err, st) \<Rightarrow> (Some err, st)
                 | (None, st) \<Rightarrow> crawl_links w self url links depth st))
         else crawl_links w self url links depth st)"
  by pat_completeness auto
termination
  apply (relation "inv_image (less_than <*lex*> less_than <*lex*> less_than)
     (\<lambda>x. case x of
        Inl (w, self, url0, depth, st) \<Rightarrow> (nat (max_depth self + 1 - depth), 0::nat, 0::nat)
      | Inr (w, self, url, links, depth, st) \<Rightarrow>
          (nat (max_depth self + 1 - (depth + 1)), 1, length links))")
  apply auto
  done


section \<open>Notions used to state the properties of the crawl\<close>

text \<open>
  What \<open>crawl\<close> does to the state before the fetch: the address joins \<open>visited_urls\<close>
  and the request is issued.
\<close>

definition visit :: "string \<Rightarrow> int \<Rightarrow> state \<Rightarrow> state" where
  "visit url depth st =
     st\<lparr>visited_urls := insert url (visited_urls st), requests := requests st @ [(url, depth)]\<rparr>"


text \<open>
  The four guards of \<open>crawl\<close> let the address \<open>url0\<close> through, and \<open>url\<close> is its
  canonical form.
\<close>

definition passes_guards :: "crawler \<Rightarrow> string \<Rightarrow> int \<Rightarrow> state \<Rightarrow> string \<Rightarrow> bool" where
  "passes_guards self url0 depth st url \<longleftrightarrow>
     depth \<le> max_depth self \<and> download_count st < max_downloads self \<and>
     clean_url self url0 = Inr (Some url) \<and> url \<noteq> [] \<and> is_valid_url self url \<and>
     url \<notin> visited_urls st"


text \<open>
  The fetch of an address fails: \<open>requests.get\<close> raises a \<open>RequestException\<close>, or the
  status of the response is one for which \<open>raise_for_status\<close> raises (400 to 599).
\<close>

definition fetch_fails :: "world \<Rightarrow> string \<Rightarrow> bool" where
  "fetch_fails w url \<longleftrightarrow>
     (case requests_get w url of
        RequestException \<Rightarrow> True
      | Response resp \<Rightarrow> 400 \<le> status_code resp \<and> status_code resp < 600)"


text \<open>
  The download budget: the counter is within \<open>max_downloads\<close>, and it counts the files
  written.
\<close>

definition budget_inv :: "crawler \<Rightarrow> state \<Rightarrow> bool" where
  "budget_inv self st \<longleftrightarrow>
     download_count st \<le> max_downloads self \<and> int (length (files st)) = download_count st"


text \<open>
  The absolute addresses that \<open>crawl\<close> follows from a page: the page is fetched with
  success, it is HTML, and the address is \<open>urljoin(url, href)\<close> for some \<open>a\<close> element
  with a non-empty \<open>href\<close>.
\<close>

definition page_links :: "world \<Rightarrow> string \<Rightarrow> string list" where
  "page_links w url =
     (case requests_get w url of
        RequestException \<Rightarrow> []
      | Response resp \<Rightarrow>
          if 400 \<le> status_code resp \<and> status_code resp < 600 then []
          else
            (case get_mime_type w resp of
               Inl err \<Rightarrow> []
             | Inr mime_type \<Rightarrow>
                 if mime_type = ''text/html'' then
                   concat (map (\<lambda>link.
                       let href = get link ''href'' ''''
                       in if href \<noteq> [] then
                            (case urljoin w url href of Inl err \<Rightarrow> [] | Inr a \<Rightarrow> [a])
                          else [])
                     (find_all (parse_html w (body_text resp)) [''a'']))
                 else []))"


text \<open>
  A link path of length \<open>n\<close> from the seed address to a canonical address: the
  canonical form of the seed has length 0, and the canonical form of an address linked
  from a page at length \<open>n\<close> has length \<open>n + 1\<close>.
\<close>

inductive link_path :: "world \<Rightarrow> crawler \<Rightarrow> string \<Rightarrow> nat \<Rightarrow> string \<Rightarrow> bool"
  for w :: world and self :: crawler and seed :: string
where
  seed: "clean_url self seed = Inr (Some url) \<Longrightarrow> link_path w self seed 0 url"
| link: "link_path w self seed n url \<Longrightarrow> a \<in> set (page_links w url) \<Longrightarrow>
         clean_url self a = Inr (Some url') \<Longrightarrow> link_path w self seed (Suc n) url'"

code_pred link_path .


text \<open>
  Every request made so far was made at a depth between 0 and \<open>max_depth\<close>, for an
  address with a link path of that length from the seed.
\<close>

definition depth_inv :: "world \<Rightarrow> crawler \<Rightarrow> string \<Rightarrow> state \<Rightarrow> bool" where
  "depth_inv w self seed st \<longleftrightarrow>
     (\<forall>(url, depth) \<in> set (requests st).
        0 \<le> depth \<and> depth \<le> max_depth self \<and> link_path w self seed (nat depth) url)"


text \<open>The \<open>a\<close> elements still to be followed belong to the page at \<open>url\<close>.\<close>

definition linked_from :: "world \<Rightarrow> string \<Rightarrow> node list \<Rightarrow> bool" where
  "linked_from w url links \<longleftrightarrow>
     (\<forall>link \<in> set links. \<forall>a. get link ''href'' '''' \<noteq> [] \<longrightarrow>
        urljoin w url (get link ''href'' '''') = Inr a \<longrightarrow> a \<in> set (page_links w url))"


section \<open>A small site\<close>

text \<open>
  A site of three addresses: the home page links to \<open>/about\<close> and to \<open>/missing\<close>; the
  server answers \<open>/about\<close> with status 304 and an HTML body, and the request for
  \<open>/missing\<close> fails. \<open>crawler1\<close> and \<open>st0\<close> are what
  \<open>WebsiteCrawler('http://a.com', 1, 5, 'out')\<close> constructs.
\<close>

definition st0 :: state where
  "st0 = \<lparr>visited_urls = {}, download_count = 0, files = [], warnings = [], requests = []\<rparr>"

definition crawler1 :: crawler where
  "crawler1 = \<lparr>start_url = ''http://a.com'', max_depth = 1, max_downloads = 5,
                output_folder = ''out'', domain = ''a.com''\<rparr>"

definition home_page :: node where
  "home_page =
     Tag ''[document]'' []
       [Tag ''a'' [(''href'', ''/about'')] [NavigableString ''About''],
        Tag ''a'' [(''href'', ''/missing'')] [NavigableString ''Missing'']]"

definition site :: world where
  "site =
     \<lparr>requests_get = (\<lambda>url.
         if url = ''http://a.com''
         then Response \<lparr>status_code = 200, content_type_header = ''text/html; charset=utf-8'',
                         final_url = url, body_text = ''home'', content = ''home''\<rparr>
         else if url = ''http://a.com/about''
         then Response \<lparr>status_code = 304, content_type_header = ''text/html'',
                         final_url = url, body_text = ''about'', content = ''about''\<rparr>
         else RequestException),
       guess_type = (\<lambda>p. None),
       guess_extension = (\<lambda>m. None),
       parse_html = (\<lambda>t. if t = ''home'' then home_page else Tag ''[document]'' [] []),
       prettify = get_text,
       urljoin = (\<lambda>base href. Inr (''http://a.com'' @ href)),
       can_write = (\<lambda>p. True)\<rparr>"


definition st_about :: state where
  "st_about = \<lparr>visited_urls = {''http://a.com/about''}, download_count = 1,
                files = [(''out/about_text.html'', [])], warnings = [],
                requests = [(''http://a.com/about'', 0)]\<rparr>"


definition st_final :: state where
  "st_final =
     \<lparr>visited_urls = {''http://a.com'', ''http://a.com/about'', ''http://a.com/missing''},
       download_count = 2,
       files = [(''out/index_text.html'', ''AboutMissing''), (''out/about_text.html'', [])],
       warnings = [''http://a.com/missing''],
       requests = [(''http://a.com'', 0), (''http://a.com/about'', 1),
                   (''http://a.com/missing'', 1)]\<rparr>"


section \<open>Properties of the chunking\<close>

subsection \<open>Indexing, slicing and trimming\<close>

lemma index_inside: "0 \<le> i \<Longrightarrow> i < int (length s) \<Longrightarrow> index s i = Inr (s ! nat i)"
  by (simp add: index_def)

lemma index_at_length: "index s (int (length s)) = Inl IndexError"
  by (simp add: index_def)

lemma slice_nonneg:
  "0 \<le> a \<Longrightarrow> 0 \<le> b \<Longrightarrow> slice s a b = take (nat b - nat a) (drop (nat a) s)"
  by (auto simp: slice_def Let_def min_def nat_diff_distrib' intro: take_all)

lemma strip_all_space:
  assumes "\<forall>c \<in> set s. isspace c"
  shows "strip s = []"
proof -
  have d: "dropWhile isspace s = []"
    unfolding dropWhile_eq_Nil_conv by (rule assms)
  show ?thesis unfolding strip_def d by simp
qed

lemma strip_no_space:
  assumes "\<forall>c \<in> set s. \<not> isspace c"
  shows "strip s = s"
proof -
  have a: "dropWhile isspace s = s"
    using assms by (cases s) auto
  have "\<forall>c \<in> set (rev s). \<not> isspace c"
    using assms by simp
  then have b: "dropWhile isspace (rev s) = rev s"
    by (cases "rev s") auto
  show ?thesis by (simp add: strip_def a b)
qed

lemma no_sentence_end_nth:
  "\<not> has_sentence_end s \<Longrightarrow> Suc i < length s \<Longrightarrow>
   \<not> (s ! i \<in> set ''.!?'' \<and> isspace (s ! Suc i))"
proof (induction s arbitrary: i rule: has_sentence_end.induct)
  case (1 c d cs)
  then show ?case by (cases i) auto
qed simp_all

lemma no_space_no_sentence_end: "\<forall>c \<in> set s. \<not> isspace c \<Longrightarrow> \<not> has_sentence_end s"
  by (induction s rule: has_sentence_end.induct) auto

lemma no_terminal_no_sentence_end: "set s \<inter> set ''.!?'' = {} \<Longrightarrow> \<not> has_sentence_end s"
  by (induction s rule: has_sentence_end.induct) auto

subsection \<open>The boundary search\<close>

lemma boundary_search_none:
  assumes "\<not> has_sentence_end body" and "i + 1 < int (length body)"
  shows "boundary_search body i stop = Inr None"
  using assms
proof (induction body i stop rule: boundary_search.induct)
  case (1 body i stop)
  show ?case
  proof (cases "i \<le> stop")
    case True
    then show ?thesis by simp
  next
    case False
    show ?thesis
    proof (cases "i > 0")
      case True
      have a: "index body i = Inr (body ! nat i)"
        using True "1.prems" by (simp add: index_inside)
      have b: "index body (i + 1) = Inr (body ! Suc (nat i))"
        using True "1.prems" by (simp add: index_inside nat_add_distrib)
      have c: "\<not> (body ! nat i \<in> set ''.!?'' \<and> isspace (body ! Suc (nat i)))"
        using no_sentence_end_nth [OF "1.prems"(1), of "nat i"] True "1.prems"(2) by simp
      have r: "boundary_search body (i - 1) stop = Inr None"
      proof (cases "body ! nat i \<in> set ''.!?''")
        case t: True
        then have "\<not> isspace (body ! Suc (nat i))" using c by simp
        then show ?thesis using "1.IH"(1) [OF False True a t b] "1.prems" by simp
      next
        case f: False
        then show ?thesis using "1.IH"(2) [OF False True a f] "1.prems" by simp
      qed
      show ?thesis
        apply (subst boundary_search.simps)
        using False True a b c r by (auto simp del: boundary_search.simps)
    next
      case f: False
      have "boundary_search body (i - 1) stop = Inr None"
        using "1.IH"(3) [OF False f] "1.prems" by simp
      then show ?thesis
        apply (subst boundary_search.simps)
        using False f by (simp del: boundary_search.simps)
    qed
  qed
qed

subsection \<open>A text of 1500 characters without a sentence end\<close>

lemma chunk_text_1500:
  assumes len: "length body = 1500" and nb: "\<not> has_sentence_end body"
  shows "chunk_text body 1000 200 =
           Some (Inr (filter (\<lambda>c. c \<noteq> [])
                        [strip (slice body 0 1000), strip (slice body 800 1500)]))"
proof -
  have bs: "boundary_search body 1099 900 = Inr None"
    using boundary_search_none [OF nb, of 1099 900] len by simp
  have s1: "chunk_step body 1000 200 0 = Inr (strip (slice body 0 1000), 1000)"
    using len bs by (simp add: chunk_step_def Let_def del: boundary_search.simps)
  have sl: "slice body 800 2000 = slice body 800 1500"
    using len by (simp add: slice_def)
  have s2: "chunk_step body 1000 200 1000 = Inr (strip (slice body 800 1500), 2000)"
    using len sl by (simp add: chunk_step_def Let_def del: boundary_search.simps)
  have l3: "\<And>acc. chunk_loop body 1000 200 2000 acc = Some (Inr acc)"
    using len by (subst chunk_loop.simps) simp
  have l2: "\<And>acc. chunk_loop body 1000 200 1000 acc =
      Some (Inr (if strip (slice body 800 1500) \<noteq> []
                 then acc @ [strip (slice body 800 1500)] else acc))"
    using len s2 l3 by (subst chunk_loop.simps) simp
  show ?thesis
    unfolding chunk_text_def
    using len s1 l2 by (subst chunk_loop.simps) simp
qed

text \<open>
  C3, as the code has it: a text of exactly 1500 characters in which no sentence-terminal
  character is followed by white space is cut at 1000, the second window starts 200
  characters earlier, and each trimmed window becomes a chunk unless it is empty. So
  \<open>chunk_text(text, 1000, 200)\<close> is the list of the non-empty ones among the trimmed
  substring of characters [0, 1000) and the trimmed substring of characters [800, 1500),
  in this order: exactly these two chunks when neither is empty.
\<close>

theorem chunk_text_1500_windows:
  "length body = 1500 \<Longrightarrow> \<not> has_sentence_end body \<Longrightarrow>
   chunk_text body 1000 200 =
     Some (Inr (filter (\<lambda>c. c \<noteq> [])
                  [strip (slice body 0 1000), strip (slice body 800 1500)]))"
  by (rule chunk_text_1500)

theorem chunk_text_1500_windows_witness:
  "length (replicate 1500 CHR ''a'') = 1500 \<and> \<not> has_sentence_end (replicate 1500 CHR ''a'') \<and>
   chunk_text (replicate 1500 CHR ''a'') 1000 200 =
     Some (Inr [replicate 1000 CHR ''a'', replicate 700 CHR ''a''])"
proof -
  let ?t = "replicate 1500 CHR ''a''"
  have l: "length ?t = 1500" by simp
  have n: "\<not> has_sentence_end ?t"
    by (rule no_terminal_no_sentence_end) simp
  have a: "strip (slice ?t 0 1000) = replicate 1000 CHR ''a''"
    by (simp add: slice_nonneg strip_no_space isspace_def)
  have b: "strip (slice ?t 800 1500) = replicate 700 CHR ''a''"
    by (simp add: slice_nonneg strip_no_space isspace_def)
  show ?thesis
    using chunk_text_1500_windows [OF l n] l n a b by simp
qed

text \<open>
  The claim as stated (always exactly two chunks) fails on 1500 spaces: both trimmed
  windows are empty and no chunk is produced.
\<close>

theorem chunk_text_1500_spaces_counterexample:
  "length (replicate 1500 CHR '' '') = 1500 \<and> \<not> has_sentence_end (replicate 1500 CHR '' '') \<and>
   chunk_text (replicate 1500 CHR '' '') 1000 200 = Some (Inr [])"
proof -
  let ?t = "replicate 1500 CHR '' ''"
  have l: "length ?t = 1500" by simp
  have n: "\<not> has_sentence_end ?t"
    by (rule no_terminal_no_sentence_end) simp
  have a: "strip (slice ?t 0 1000) = []"
    by (rule strip_all_space) (simp add: slice_nonneg isspace_def)
  have b: "strip (slice ?t 800 1500) = []"
    by (rule strip_all_space) (simp add: slice_nonneg isspace_def)
  show ?thesis
    using chunk_text_1500 [OF l n] l n a b by simp
qed

subsection \<open>The read one position past the end of the text\<close>

lemma chunk_text_index_error:
  assumes "1000 < length body" "length body \<le> 1100" "last body \<in> set ''.!?''"
  shows "chunk_text body 1000 200 = Some (Inl IndexError)"
proof -
  let ?n = "int (length body)"
  have ne: "body \<noteq> []" using assms by auto
  have a: "index body (?n - 1) = Inr (last body)"
    using ne assms by (simp add: index_def last_conv_nth nat_diff_distrib')
  have b: "index body (?n - 1 + 1) = Inl IndexError"
    by (simp add: index_def)
  have bs: "boundary_search body (?n - 1) 900 = Inl IndexError"
    apply (subst boundary_search.simps)
    using assms a b by (simp del: boundary_search.simps)
  have m: "min (0 + 1000 + 100) ?n - 1 = ?n - 1" using assms by simp
  have "chunk_step body 1000 200 0 = Inl IndexError"
    unfolding chunk_step_def Let_def m using assms bs by (simp del: boundary_search.simps)
  then show ?thesis
    unfolding chunk_text_def
    using assms ne by (subst chunk_loop.simps) simp
qed

text \<open>
  C1 says that \<open>chunk_text\<close> never raises and that the boundary search only reads
  positions inside the text. The search starts at \<open>min(end + 100, text_len) - 1\<close>, the
  last position of the text when the text ends within 100 characters after \<open>end\<close>, and
  then reads \<open>text[i + 1]\<close>, one position past the end: on a text of 1050 characters
  that ends with a full stop the call raises \<open>IndexError\<close>.
\<close>

theorem chunk_text_raises_index_error:
  "chunk_text (replicate 1049 CHR ''a'' @ ''.'') 1000 200 = Some (Inl IndexError)"
  by (rule chunk_text_index_error) simp_all

section \<open>Properties of the markdown conversion\<close>

lemma html_to_markdown_heading_paragraph:
  assumes "main_content soup = Some region"
    and "find_all region [''h1'', ''h2'', ''h3'', ''h4'', ''h5'', ''h6''] = [h]"
    and "name h = ''h2''" and "strip (get_text h) = ''About Us''"
    and "find_all region [''p'', ''ul'', ''ol''] = [p]"
    and "name p = ''p''" and "strip (get_text p) = ''We build things.''"
    and "find_all region [''a''] = []"
  shows "html_to_markdown soup = ''## About Us\<newline>\<newline>We build things.\<newline>''"
  using assms
  by (simp add: html_to_markdown_def heading_lines_def block_lines_def link_lines_def
      eval_nat_numeral)

lemma about_page_region:
  "main_content about_page =
     Some (Tag ''main'' []
             [Tag ''h2'' [] [NavigableString ''About Us''],
              Tag ''p'' [] [NavigableString ''We build things.'']])"
  by (simp add: main_content_def about_page_def find_tag_def find_all_def)

text \<open>
  C8, as the code has it: for every document whose main content region holds exactly
  one heading, an \<open>h2\<close> with the text \<open>About Us\<close>, exactly one paragraph with the text
  \<open>We build things.\<close>, no list and no link, \<open>html_to_markdown\<close> returns the four lines
  \<open>## About Us\<close>, empty, \<open>We build things.\<close>, empty, joined by single newline
  characters: the result ends with one newline character.
\<close>

theorem html_to_markdown_about_us:
  "main_content soup = Some region \<Longrightarrow>
   find_all region [''h1'', ''h2'', ''h3'', ''h4'', ''h5'', ''h6''] = [h] \<Longrightarrow>
   name h = ''h2'' \<Longrightarrow> strip (get_text h) = ''About Us'' \<Longrightarrow>
   find_all region [''p'', ''ul'', ''ol''] = [p] \<Longrightarrow>
   name p = ''p'' \<Longrightarrow> strip (get_text p) = ''We build things.'' \<Longrightarrow>
   find_all region [''a''] = [] \<Longrightarrow>
   html_to_markdown soup = ''## About Us\<newline>\<newline>We build things.\<newline>''"
  by (rule html_to_markdown_heading_paragraph)

theorem html_to_markdown_about_us_witness:
  "main_content about_page =
     Some (Tag ''main'' []
             [Tag ''h2'' [] [NavigableString ''About Us''],
              Tag ''p'' [] [NavigableString ''We build things.'']]) \<and>
   html_to_markdown about_page = ''## About Us\<newline>\<newline>We build things.\<newline>''"
proof -
  let ?h = "Tag ''h2'' [] [NavigableString ''About Us'']"
  let ?p = "Tag ''p'' [] [NavigableString ''We build things.'']"
  let ?r = "Tag ''main'' [] [?h, ?p]"
  have 1: "main_content about_page = Some ?r" by (rule about_page_region)
  have 2: "find_all ?r [''h1'', ''h2'', ''h3'', ''h4'', ''h5'', ''h6''] = [?h]"
    by (simp add: find_all_def)
  have 3: "name ?h = ''h2''" by simp
  have 4: "strip (get_text ?h) = ''About Us''" by (simp add: strip_def isspace_def)
  have 5: "find_all ?r [''p'', ''ul'', ''ol''] = [?p]" by (simp add: find_all_def)
  have 6: "name ?p = ''p''" by simp
  have 7: "strip (get_text ?p) = ''We build things.''" by (simp add: strip_def isspace_def)
  have 8: "find_all ?r [''a''] = []" by (simp add: find_all_def)
  show ?thesis
    using html_to_markdown_about_us [OF 1 2 3 4 5 6 7 8] 1 by simp
qed

text \<open>
  The claim as stated (the result ends with two newline characters) fails on the
  document of the scenario.
\<close>

theorem html_to_markdown_about_us_counterexample:
  "html_to_markdown about_page = ''## About Us\<newline>\<newline>We build things.\<newline>'' \<and>
   html_to_markdown about_page \<noteq> ''## About Us\<newline>\<newline>We build things.\<newline>\<newline>''"
proof -
  have "html_to_markdown about_page = ''## About Us\<newline>\<newline>We build things.\<newline>''"
    by (simp add: html_to_markdown_def about_page_region heading_lines_def block_lines_def
        link_lines_def find_all_def strip_def isspace_def eval_nat_numeral)
  then show ?thesis by simp
qed

section \<open>Properties of the file names\<close>

lemma replace_scan_no_occurrence:
  "\<not> sublist old s \<Longrightarrow> replace_scan s old new = s"
proof (induction s old new rule: replace_scan.induct)
  case (1 old new)
  then show ?case by simp
next
  case (2 c cs old new)
  from "2.prems" have np: "\<not> prefix old (c # cs)"
    using prefix_imp_sublist by blast
  from "2.prems" have ns: "\<not> sublist old cs"
    by (meson sublist_Cons_right)
  show ?case using np ns "2.IH"(2) by simp
qed

lemma replace_scan_char:
  "replace_scan s [a] [b] = map (\<lambda>c. if c = a then b else c) s"
  by (induction s) auto

lemma replace_prefix_once:
  assumes "old \<noteq> []" "\<not> sublist old r"
  shows "replace (old @ r) old [] = r"
proof (cases old)
  case Nil
  then show ?thesis using assms by simp
next
  case (Cons a as)
  have "replace_scan (old @ r) old [] = replace_scan r old []"
    unfolding Cons by simp
  then show ?thesis
    using assms by (simp add: replace_def replace_scan_no_occurrence)
qed

lemma filename_prefix_only:
  assumes "seed \<noteq> []"
    and "\<not> sublist seed
            (if prefix seed url then drop (length seed) url else url)"
  shows "filename_of_url seed url = claimed_filename seed url"
proof (cases "prefix seed url")
  case True
  then obtain r where u: "url = seed @ r" by (auto simp: prefix_def)
  have "replace url seed [] = r"
    using assms True u by (simp add: replace_prefix_once)
  then show ?thesis
    using True u
    by (simp add: filename_of_url_def claimed_filename_def Let_def replace_def replace_scan_char)
next
  case False
  have "replace url seed [] = url"
    using assms False by (simp add: replace_def replace_scan_no_occurrence)
  then show ?thesis
    using False
    by (simp add: filename_of_url_def claimed_filename_def Let_def replace_def replace_scan_char)
qed

text \<open>
  C7, as the code has it: \<open>url.replace(self.seed, '')\<close> removes the seed address
  wherever it occurs. When the seed address occurs in the address nowhere after a
  leading occurrence, the derived base file name is the one the specification
  describes: prefix removed, slashes at both ends removed, \<open>index\<close> when empty, every
  remaining slash replaced by an underscore.
\<close>

theorem filename_of_url_leading_occurrence:
  "seed \<noteq> [] \<Longrightarrow>
   \<not> sublist seed
       (if prefix seed url then drop (length seed) url else url) \<Longrightarrow>
   filename_of_url seed url = claimed_filename seed url"
  by (rule filename_prefix_only)

theorem filename_of_url_leading_occurrence_witness:
  "''http://a.com'' \<noteq> [] \<and>
   \<not> sublist ''http://a.com''
       (if prefix ''http://a.com'' ''http://a.com/about/team''
        then drop (length ''http://a.com'') ''http://a.com/about/team''
        else ''http://a.com/about/team'') \<and>
   filename_of_url ''http://a.com'' ''http://a.com/about/team'' = ''about_team''"
proof -
  have a: "''http://a.com'' \<noteq> []" by simp
  have b: "\<not> sublist ''http://a.com''
       (if prefix ''http://a.com'' ''http://a.com/about/team''
        then drop (length ''http://a.com'') ''http://a.com/about/team''
        else ''http://a.com/about/team'')"
    by (simp add: sublist_Cons_right)
  have c: "claimed_filename ''http://a.com'' ''http://a.com/about/team'' = ''about_team''"
    by (simp add: claimed_filename_def strip_chars_def Let_def)
  show ?thesis
    using filename_of_url_leading_occurrence [OF a b] a b c by simp
qed

text \<open>
  The claim as stated fails on an address that carries the seed address again in its
  query string: the second occurrence is removed as well.
\<close>

theorem filename_of_url_inner_occurrence_counterexample:
  "filename_of_url ''http://a.com'' ''http://a.com/r?u=http://a.com'' = ''r?u='' \<and>
   claimed_filename ''http://a.com'' ''http://a.com/r?u=http://a.com'' = ''r?u=http:__a.com''"
  by (simp add: filename_of_url_def claimed_filename_def replace_def strip_chars_def Let_def)

section \<open>Properties of the crawl\<close>

subsection \<open>Unfolding \<open>crawl\<close> and its loop\<close>

declare crawl.simps [simp del]

lemma crawl_guard:
  "depth > max_depth self \<or> download_count st \<ge> max_downloads self \<Longrightarrow>
   crawl w self url0 depth st = (None, st)"
  by (simp add: crawl.simps)

lemma crawl_fetch:
  assumes "passes_guards self url0 depth st url"
  shows "crawl w self url0 depth st =
     (case requests_get w url of
        RequestException \<Rightarrow> (None, (visit url depth st)\<lparr>warnings := warnings st @ [url]\<rparr>)
      | Response resp \<Rightarrow>
          if 400 \<le> status_code resp \<and> status_code resp < 600
          then (None, (visit url depth st)\<lparr>warnings := warnings st @ [url]\<rparr>)
          else
            (case get_mime_type w resp of
               Inl err \<Rightarrow> (Some err, visit url depth st)
             | Inr mime_type \<Rightarrow>
                 (case save_content w self url resp mime_type (visit url depth st) of
                    Inl err \<Rightarrow> (Some err, visit url depth st)
                  | Inr st2 \<Rightarrow>
                      if mime_type = ''text/html''
                      then crawl_links w self url
                             (find_all (parse_html w (body_text resp)) [''a'']) depth st2
                      else (None, st2))))"
proof -
  have g: "\<not> (depth > max_depth self \<or> download_count st \<ge> max_downloads self)"
    and c: "clean_url self url0 = Inr (Some url)"
    and v: "\<not> (url = [] \<or> \<not> is_valid_url self url)" "url \<notin> visited_urls st"
    using assms by (auto simp: passes_guards_def)
  show ?thesis
    apply (subst crawl.simps)
    apply (simp only: g c v if_False sum.case option.case Let_def visit_def)
    apply (simp split: fetch.split)
    done
qed

lemma crawl_no_fetch:
  assumes "\<not> (\<exists>url. passes_guards self url0 depth st url)"
  shows "crawl w self url0 depth st =
           (case clean_url self url0 of Inl err \<Rightarrow>
                if depth > max_depth self \<or> download_count st \<ge> max_downloads self
                then (None, st) else (Some err, st)
            | Inr u \<Rightarrow> (None, st))"
  using assms
  apply (subst crawl.simps)
  apply (simp add: passes_guards_def split: sum.split option.split)
  apply auto
  done

lemma crawl_cases [consumes 1, case_names skip raised failed error leaf html]:
  assumes "crawl w self url0 depth st = (r, st')"
  obtains
    (skip) "r = None" "st' = st"
  | (raised) err where "clean_url self url0 = Inl err" "r = Some err" "st' = st"
  | (failed) url where "passes_guards self url0 depth st url" "fetch_fails w url"
      "r = None" "st' = (visit url depth st)\<lparr>warnings := warnings st @ [url]\<rparr>"
  | (error) url err where "passes_guards self url0 depth st url" "\<not> fetch_fails w url"
      "r = Some err" "st' = visit url depth st"
  | (leaf) url resp mime_type where "passes_guards self url0 depth st url"
      "requests_get w url = Response resp" "\<not> fetch_fails w url"
      "get_mime_type w resp = Inr mime_type" "mime_type \<noteq> ''text/html''"
      "save_content w self url resp mime_type (visit url depth st) = Inr st'" "r = None"
  | (html) url resp st2 where "passes_guards self url0 depth st url"
      "requests_get w url = Response resp" "\<not> fetch_fails w url"
      "get_mime_type w resp = Inr ''text/html''"
      "save_content w self url resp ''text/html'' (visit url depth st) = Inr st2"
      "crawl_links w self url (find_all (parse_html w (body_text resp)) [''a'']) depth st2 = (r, st')"
proof (cases "\<exists>url. passes_guards self url0 depth st url")
  case False
  from assms crawl_no_fetch [OF False, of w]
  show ?thesis
    by (cases "clean_url self url0") (auto split: if_splits intro: skip raised)
next
  case True
  then obtain url where pg: "passes_guards self url0 depth st url" ..
  note eq = assms [unfolded crawl_fetch [OF pg]]
  show ?thesis
  proof (cases "requests_get w url")
    case RequestException
    then have "fetch_fails w url" by (simp add: fetch_fails_def)
    then show ?thesis using eq RequestException pg by (auto intro: failed)
  next
    case (Response resp)
    show ?thesis
    proof (cases "400 \<le> status_code resp \<and> status_code resp < 600")
      case True
      then have "fetch_fails w url" using Response by (simp add: fetch_fails_def)
      then show ?thesis using eq Response True pg by (auto intro: failed)
    next
      case ok: False
      then have nf: "\<not> fetch_fails w url" using Response by (simp add: fetch_fails_def)
      show ?thesis
      proof (cases "get_mime_type w resp")
        case (Inl err)
        then show ?thesis using eq Response ok pg nf by (auto intro: error)
      next
        case mime: (Inr mime_type)
        show ?thesis
        proof (cases "save_content w self url resp mime_type (visit url depth st)")
          case (Inl err)
          then show ?thesis using eq Response ok pg nf mime by (auto intro: error)
        next
          case saved: (Inr st2)
          show ?thesis
          proof (cases "mime_type = ''text/html''")
            case True
            show ?thesis
              by (rule html [OF pg Response nf mime [unfolded True] saved [unfolded True]])
                 (use eq Response ok mime saved True in simp)
          next
            case False
            show ?thesis
              by (rule leaf [OF pg Response nf mime False])
                 (use eq Response ok mime saved False in simp_all)
          qed
        qed
      qed
    qed
  qed
qed


lemma crawl_links_cons_cases [consumes 1, case_names no_href join_error raised continue]:
  assumes "crawl_links w self url (link # links) depth st = (r, st')"
  obtains
    (no_href) "get link ''href'' '''' = []" "crawl_links w self url links depth st = (r, st')"
  | (join_error) err where "get link ''href'' '''' \<noteq> []"
      "urljoin w url (get link ''href'' '''') = Inl err" "r = Some err" "st' = st"
  | (raised) a err where "get link ''href'' '''' \<noteq> []"
      "urljoin w url (get link ''href'' '''') = Inr a"
      "crawl w self a (depth + 1) st = (Some err, st')" "r = Some err"
  | (continue) a st1 where "get link ''href'' '''' \<noteq> []"
      "urljoin w url (get link ''href'' '''') = Inr a"
      "crawl w self a (depth + 1) st = (None, st1)"
      "crawl_links w self url links depth st1 = (r, st')"
proof (cases "get link ''href'' '''' = []")
  case True
  then show ?thesis using assms by (auto intro: no_href)
next
  case href: False
  show ?thesis
  proof (cases "urljoin w url (get link ''href'' '''')")
    case (Inl err)
    then show ?thesis using assms href by (auto intro: join_error)
  next
    case (Inr a)
    obtain r1 st1 where c: "crawl w self a (depth + 1) st = (r1, st1)"
      by (cases "crawl w self a (depth + 1) st")
    show ?thesis
    proof (cases r1)
      case None
      show ?thesis
        by (rule continue [OF href Inr c [unfolded None]]) (use assms href Inr c None in simp)
    next
      case (Some err)
      have "r = Some err" "st' = st1" using assms href Inr c Some by simp_all
      then show ?thesis using raised [OF href Inr] c Some by simp
    qed
  qed
qed

lemma crawl_induct [case_names guard step nil cons]:
  fixes P :: "string \<Rightarrow> int \<Rightarrow> state \<Rightarrow> bool"
    and Q :: "string \<Rightarrow> node list \<Rightarrow> int \<Rightarrow> state \<Rightarrow> bool"
  assumes guard: "\<And>url0 depth st. depth > limit \<Longrightarrow> P url0 depth st"
    and step: "\<And>url0 depth st. depth \<le> limit \<Longrightarrow>
                 (\<And>url links st2. Q url links depth st2) \<Longrightarrow> P url0 depth st"
    and nil: "\<And>url depth st. Q url [] depth st"
    and cons: "\<And>url link links depth st.
                 (\<And>a st1. P a (depth + 1) st1) \<Longrightarrow> (\<And>st1. Q url links depth st1) \<Longrightarrow>
                 Q url (link # links) depth st"
  shows "P url0 depth st" and "Q url links depth st"
proof -
  have p: "\<And>depth url0 st. nat (limit + 1 - depth) = k \<Longrightarrow> P url0 depth st" for k
  proof (induction k)
    case 0
    then show ?case using guard by simp
  next
    case (Suc k)
    have le: "depth \<le> limit" using Suc.prems by simp
    have next_p: "\<And>a st1. P a (depth + 1) st1"
      using Suc.IH [of "depth + 1"] Suc.prems by simp
    have q: "Q url links depth st2" for url links st2
    proof (induction links arbitrary: st2)
      case Nil
      show ?case by (rule nil)
    next
      case (Cons link links)
      show ?case by (rule cons [OF next_p Cons.IH])
    qed
    show ?case by (rule step [OF le q])
  qed
  show "P url0 depth st" using p by simp
  have all_p: "\<And>a d st1. P a d st1" using p by simp
  show "Q url links depth st"
  proof (induction links arbitrary: st)
    case Nil
    show ?case by (rule nil)
  next
    case (Cons link links)
    show ?case by (rule cons [OF all_p Cons.IH])
  qed
qed


subsection \<open>The download budget\<close>

lemma save_content_count:
  assumes "save_content w self url resp mime_type st = Inr st'"
  shows "download_count st' = download_count st + 1"
    and "length (files st') = Suc (length (files st))"
    and "visited_urls st' = visited_urls st"
    and "requests st' = requests st"
    and "warnings st' = warnings st"
  using assms
  by (auto simp: save_content_def Let_def split: if_splits prod.splits)

lemma budget_inv_save:
  assumes "budget_inv self st" "passes_guards self url0 depth st url"
    and "save_content w self url resp mime_type (visit url depth st) = Inr st2"
  shows "budget_inv self st2"
  using assms save_content_count [OF assms(3)]
  by (simp add: budget_inv_def passes_guards_def visit_def)

lemma crawl_budget_inv:
  "budget_inv self st \<longrightarrow> budget_inv self (snd (crawl w self url0 depth st))"
  "budget_inv self st \<longrightarrow> budget_inv self (snd (crawl_links w self url links depth st))"
proof (induction url0 depth st and url links depth st rule: crawl_induct [where limit = "max_depth self"])
  case (guard url0 depth st)
  then show ?case by (simp add: crawl_guard)
next
  case (step url0 depth st)
  show ?case
  proof
    assume inv: "budget_inv self st"
    obtain r st' where c: "crawl w self url0 depth st = (r, st')"
      by (cases "crawl w self url0 depth st")
    from c have "budget_inv self st'"
    proof (cases rule: crawl_cases)
      case (failed url)
      then show ?thesis using inv by (simp add: budget_inv_def visit_def)
    next
      case (error url err)
      then show ?thesis using inv by (simp add: budget_inv_def visit_def)
    next
      case (leaf url resp mime_type)
      then show ?thesis using budget_inv_save [OF inv] by blast
    next
      case (html url resp st2)
      have "budget_inv self st2" using budget_inv_save [OF inv html(1) html(5)] .
      moreover have "budget_inv self st2 \<longrightarrow> budget_inv self (snd (crawl_links w self url
          (find_all (parse_html w (body_text resp)) [''a'']) depth st2))"
        by (rule step.IH)
      ultimately show ?thesis using html(6) by simp
    qed (use inv in simp_all)
    then show "budget_inv self (snd (crawl w self url0 depth st))" using c by simp
  qed
next
  case (nil url depth st)
  then show ?case by simp
next
  case (cons url link links depth st)
  show ?case
  proof
    assume inv: "budget_inv self st"
    obtain r st' where c: "crawl_links w self url (link # links) depth st = (r, st')"
      by (cases "crawl_links w self url (link # links) depth st")
    from c have "budget_inv self st'"
    proof (cases rule: crawl_links_cons_cases)
      case no_href
      have "budget_inv self st \<longrightarrow> budget_inv self (snd (crawl_links w self url links depth st))"
        by (rule cons.IH(2))
      then show ?thesis using no_href inv by simp
    next
      case (join_error err)
      then show ?thesis using inv by simp
    next
      case (raised a err)
      have "budget_inv self st \<longrightarrow> budget_inv self (snd (crawl w self a (depth + 1) st))"
        by (rule cons.IH(1))
      then show ?thesis using raised inv by simp
    next
      case (continue a st1)
      have "budget_inv self st \<longrightarrow> budget_inv self (snd (crawl w self a (depth + 1) st))"
        by (rule cons.IH(1))
      then have "budget_inv self st1" using inv continue(3) by simp
      moreover have "budget_inv self st1 \<longrightarrow>
          budget_inv self (snd (crawl_links w self url links depth st1))"
        by (rule cons.IH(2))
      ultimately show ?thesis using continue(4) by simp
    qed
    then show "budget_inv self (snd (crawl_links w self url (link # links) depth st))"
      using c by simp
  qed
qed


subsection \<open>The depth bound\<close>

lemma depth_inv_visit:
  assumes "depth_inv w self seed st" "passes_guards self url0 depth st url" "0 \<le> depth"
    and "\<forall>u. clean_url self url0 = Inr (Some u) \<longrightarrow> link_path w self seed (nat depth) u"
  shows "depth_inv w self seed (visit url depth st)"
  using assms by (auto simp: depth_inv_def passes_guards_def visit_def)

lemma page_links_member:
  assumes "requests_get w url = Response resp" "\<not> fetch_fails w url"
    and "get_mime_type w resp = Inr ''text/html''"
    and "link \<in> set (find_all (parse_html w (body_text resp)) [''a''])"
    and "get link ''href'' '''' \<noteq> []" "urljoin w url (get link ''href'' '''') = Inr a"
  shows "a \<in> set (page_links w url)"
proof -
  have s: "\<not> (400 \<le> status_code resp \<and> status_code resp < 600)"
    using assms(1,2) by (simp add: fetch_fails_def)
  show ?thesis
    unfolding page_links_def
    using assms s by (force simp: Let_def)
qed

lemma crawl_depth_inv:
  "0 \<le> depth \<and> (\<forall>u. clean_url self url0 = Inr (Some u) \<longrightarrow> link_path w self seed (nat depth) u)
     \<and> depth_inv w self seed st
   \<longrightarrow> depth_inv w self seed (snd (crawl w self url0 depth st))"
  "0 \<le> depth \<and> link_path w self seed (nat depth) url \<and> linked_from w url links
     \<and> depth_inv w self seed st
   \<longrightarrow> depth_inv w self seed (snd (crawl_links w self url links depth st))"
proof (induction url0 depth st and url links depth st rule: crawl_induct [where limit = "max_depth self"])
  case (guard url0 depth st)
  then show ?case by (simp add: crawl_guard)
next
  case (step url0 depth st)
  show ?case
  proof (intro impI, elim conjE)
    assume d: "0 \<le> depth"
      and lp: "\<forall>u. clean_url self url0 = Inr (Some u) \<longrightarrow> link_path w self seed (nat depth) u"
      and inv: "depth_inv w self seed st"
    obtain r st' where c: "crawl w self url0 depth st = (r, st')"
      by (cases "crawl w self url0 depth st")
    from c have "depth_inv w self seed st'"
    proof (cases rule: crawl_cases)
      case (failed url)
      then show ?thesis using depth_inv_visit [OF inv failed(1) d lp]
        by (simp add: depth_inv_def visit_def)
    next
      case (error url err)
      then show ?thesis using depth_inv_visit [OF inv error(1) d lp] by simp
    next
      case (leaf url resp mime_type)
      then show ?thesis
        using depth_inv_visit [OF inv leaf(1) d lp] save_content_count(4) [OF leaf(6)]
        by (simp add: depth_inv_def)
    next
      case (html url resp st2)
      have i2: "depth_inv w self seed st2"
        using depth_inv_visit [OF inv html(1) d lp] save_content_count(4) [OF html(5)]
        by (simp add: depth_inv_def)
      have p: "link_path w self seed (nat depth) url"
        using lp html(1) by (simp add: passes_guards_def)
      have l: "linked_from w url (find_all (parse_html w (body_text resp)) [''a''])"
        unfolding linked_from_def
        using page_links_member [OF html(2) html(3) html(4)] by blast
      have "0 \<le> depth \<and> link_path w self seed (nat depth) url
            \<and> linked_from w url (find_all (parse_html w (body_text resp)) [''a''])
            \<and> depth_inv w self seed st2
          \<longrightarrow> depth_inv w self seed (snd (crawl_links w self url
                (find_all (parse_html w (body_text resp)) [''a'']) depth st2))"
        by (rule step.IH)
      then show ?thesis using d p l i2 html(6) by simp
    qed (use inv in simp_all)
    then show "depth_inv w self seed (snd (crawl w self url0 depth st))" using c by simp
  qed
next
  case (nil url depth st)
  then show ?case by simp
next
  case (cons url link links depth st)
  show ?case
  proof (intro impI, elim conjE)
    assume d: "0 \<le> depth" and p: "link_path w self seed (nat depth) url"
      and l: "linked_from w url (link # links)" and inv: "depth_inv w self seed st"
    have l': "linked_from w url links" using l by (simp add: linked_from_def)
    have nd: "nat (depth + 1) = Suc (nat depth)" using d by simp
    have reach: "\<forall>u. clean_url self a = Inr (Some u) \<longrightarrow> link_path w self seed (nat (depth + 1)) u"
      if "get link ''href'' '''' \<noteq> []" "urljoin w url (get link ''href'' '''') = Inr a" for a
    proof -
      have "a \<in> set (page_links w url)" using l that by (simp add: linked_from_def)
      then show ?thesis unfolding nd using link_path.link [OF p] by blast
    qed
    obtain r st' where c: "crawl_links w self url (link # links) depth st = (r, st')"
      by (cases "crawl_links w self url (link # links) depth st")
    from c have "depth_inv w self seed st'"
    proof (cases rule: crawl_links_cons_cases)
      case no_href
      have "0 \<le> depth \<and> link_path w self seed (nat depth) url \<and> linked_from w url links
            \<and> depth_inv w self seed st
          \<longrightarrow> depth_inv w self seed (snd (crawl_links w self url links depth st))"
        by (rule cons.IH(2))
      then show ?thesis using no_href d p l' inv by simp
    next
      case (join_error err)
      then show ?thesis using inv by simp
    next
      case (raised a err)
      have "0 \<le> depth + 1
            \<and> (\<forall>u. clean_url self a = Inr (Some u) \<longrightarrow> link_path w self seed (nat (depth + 1)) u)
            \<and> depth_inv w self seed st
          \<longrightarrow> depth_inv w self seed (snd (crawl w self a (depth + 1) st))"
        by (rule cons.IH(1))
      then show ?thesis using raised reach [OF raised(1,2)] d inv by simp
    next
      case (continue a st1)
      have "0 \<le> depth + 1
            \<and> (\<forall>u. clean_url self a = Inr (Some u) \<longrightarrow> link_path w self seed (nat (depth + 1)) u)
            \<and> depth_inv w self seed st
          \<longrightarrow> depth_inv w self seed (snd (crawl w self a (depth + 1) st))"
        by (rule cons.IH(1))
      then have "depth_inv w self seed st1"
        using reach [OF continue(1,2)] d inv continue(3) by simp
      moreover have "0 \<le> depth \<and> link_path w self seed (nat depth) url \<and> linked_from w url links
            \<and> depth_inv w self seed st1
          \<longrightarrow> depth_inv w self seed (snd (crawl_links w self url links depth st1))"
        by (rule cons.IH(2))
      ultimately show ?thesis using d p l' continue(4) by simp
    qed
    then show "depth_inv w self seed (snd (crawl_links w self url (link # links) depth st))"
      using c by simp
  qed
qed


subsection \<open>A failed fetch\<close>

lemma crawl_fetch_fails:
  assumes "passes_guards self url0 depth st url" "fetch_fails w url"
  shows "crawl w self url0 depth st =
           (None, st\<lparr>visited_urls := insert url (visited_urls st),
                        requests := requests st @ [(url, depth)],
                        warnings := warnings st @ [url]\<rparr>)"
  unfolding crawl_fetch [OF assms(1)]
  using assms(2) by (auto simp: fetch_fails_def visit_def split: fetch.splits)

lemma crawl_links_fetch_fails:
  assumes "passes_guards self url0 (depth + 1) st url" "fetch_fails w url"
    and "get link ''href'' '''' \<noteq> []" "urljoin w page (get link ''href'' '''') = Inr url0"
  shows "crawl_links w self page (link # links) depth st =
           crawl_links w self page links depth
             (st\<lparr>visited_urls := insert url (visited_urls st),
                  requests := requests st @ [(url, depth + 1)],
                  warnings := warnings st @ [url]\<rparr>)"
  using assms(3,4) crawl_fetch_fails [OF assms(1,2)] by simp


subsection \<open>The crawl of the small site\<close>

lemma site_simps:
  "requests_get site ''http://a.com'' =
     Response \<lparr>status_code = 200, content_type_header = ''text/html; charset=utf-8'',
                final_url = ''http://a.com'', body_text = ''home'', content = ''home''\<rparr>"
  "requests_get site ''http://a.com/about'' =
     Response \<lparr>status_code = 304, content_type_header = ''text/html'',
                final_url = ''http://a.com/about'', body_text = ''about'', content = ''about''\<rparr>"
  "requests_get site ''http://a.com/missing'' = RequestException"
  "guess_type site p = None" "guess_extension site m = None"
  "parse_html site ''home'' = home_page" "parse_html site ''about'' = Tag ''[document]'' [] []"
  "prettify site = get_text" "urljoin site base href = Inr (''http://a.com'' @ href)"
  "can_write site f"
  by (simp_all add: site_def)

lemmas url_defs = clean_url_def is_valid_url_def strip_def isspace_def replace_def urlparse_def
  urlsplit_def split_scheme_def splitnetloc_def split_first_def ascii_letters_def
  scheme_chars_def lower_def uses_params_def splitparams_def Let_def sublist_Cons_right

lemma clean_home: "clean_url crawler1 ''http://a.com'' = Inr (Some ''http://a.com'')"
  by (simp add: url_defs crawler1_def)

lemma clean_about: "clean_url crawler1 ''http://a.com/about'' = Inr (Some ''http://a.com/about'')"
  by (simp add: url_defs crawler1_def)

lemma clean_missing:
  "clean_url crawler1 ''http://a.com/missing'' = Inr (Some ''http://a.com/missing'')"
  by (simp add: url_defs crawler1_def)

lemma valid_urls:
  "is_valid_url crawler1 ''http://a.com''"
  "is_valid_url crawler1 ''http://a.com/about''"
  "is_valid_url crawler1 ''http://a.com/missing''"
  by (simp_all add: url_defs crawler1_def)

lemma init: "WebsiteCrawler ''http://a.com'' 1 5 ''out'' = Inr (crawler1, st0)"
  by (simp add: WebsiteCrawler_def url_defs crawler1_def st0_def)

lemma crawl_about:
  "crawl site crawler1 ''http://a.com/about'' 0 st0 = (None, st_about)"
proof -
  have pg: "passes_guards crawler1 ''http://a.com/about'' 0 st0 ''http://a.com/about''"
    by (simp add: passes_guards_def clean_about valid_urls) (simp add: crawler1_def st0_def)
  show ?thesis
    unfolding crawl_fetch [OF pg]
    by (simp add: site_simps get_mime_type_def lower_def save_content_def visit_def st0_def
        st_about_def filename_of_url_def replace_def strip_chars_def os_path_join_def
        crawler1_def find_all_def Let_def)
qed


lemma crawl_about_at:
  assumes "passes_guards crawler1 ''http://a.com/about'' depth st ''http://a.com/about''"
  shows "crawl site crawler1 ''http://a.com/about'' depth st =
           (None, st\<lparr>visited_urls := insert ''http://a.com/about'' (visited_urls st),
                        requests := requests st @ [(''http://a.com/about'', depth)],
                        files := files st @ [(''out/about_text.html'', [])],
                        download_count := download_count st + 1\<rparr>)"
  unfolding crawl_fetch [OF assms]
  by (simp add: site_simps get_mime_type_def lower_def save_content_def visit_def
      filename_of_url_def replace_def strip_chars_def os_path_join_def
      crawler1_def find_all_def Let_def)

lemma missing_fails: "fetch_fails site ''http://a.com/missing''"
  by (simp add: fetch_fails_def site_simps)

lemma crawl_home: "crawl site crawler1 ''http://a.com'' 0 st0 = (None, st_final)"
proof -
  have pg: "passes_guards crawler1 ''http://a.com'' 0 st0 ''http://a.com''"
    by (simp add: passes_guards_def clean_home valid_urls) (simp add: crawler1_def st0_def)
  let ?st1 = "\<lparr>visited_urls = {''http://a.com''}, download_count = 1,
                files = [(''out/index_text.html'', ''AboutMissing'')], warnings = [],
                requests = [(''http://a.com'', 0)]\<rparr>"
  have home: "crawl site crawler1 ''http://a.com'' 0 st0 =
      crawl_links site crawler1 ''http://a.com''
        (find_all (parse_html site ''home'') [''a'']) 0 ?st1"
    unfolding crawl_fetch [OF pg]
    by (simp add: site_simps get_mime_type_def lower_def save_content_def visit_def st0_def
        filename_of_url_def replace_def strip_chars_def os_path_join_def
        crawler1_def home_page_def Let_def)
  have links: "find_all (parse_html site ''home'') [''a''] =
      [Tag ''a'' [(''href'', ''/about'')] [NavigableString ''About''],
       Tag ''a'' [(''href'', ''/missing'')] [NavigableString ''Missing'']]"
    by (simp add: site_simps home_page_def find_all_def)
  have j: "urljoin site ''http://a.com'' ''/about'' = Inr ''http://a.com/about''"
    "urljoin site ''http://a.com'' ''/missing'' = Inr ''http://a.com/missing''"
    by (simp_all add: site_simps)
  have pg1: "passes_guards crawler1 ''http://a.com/about'' (0 + 1) ?st1 ''http://a.com/about''"
    by (simp add: passes_guards_def clean_about valid_urls) (simp add: crawler1_def)
  let ?st2 = "\<lparr>visited_urls = {''http://a.com'', ''http://a.com/about''}, download_count = 2,
                files = [(''out/index_text.html'', ''AboutMissing''),
                         (''out/about_text.html'', [])], warnings = [],
                requests = [(''http://a.com'', 0), (''http://a.com/about'', 1)]\<rparr>"
  have a: "crawl site crawler1 ''http://a.com/about'' (0 + 1) ?st1 = (None, ?st2)"
    unfolding crawl_about_at [OF pg1] by auto
  have pg2: "passes_guards crawler1 ''http://a.com/missing'' (0 + 1) ?st2 ''http://a.com/missing''"
    by (simp add: passes_guards_def clean_missing valid_urls) (simp add: crawler1_def)
  have m: "crawl site crawler1 ''http://a.com/missing'' (0 + 1) ?st2 = (None, st_final)"
    unfolding crawl_fetch_fails [OF pg2 missing_fails] by (auto simp: st_final_def)
  show ?thesis
    unfolding home links by (simp add: j a m del: add_0 One_nat_def)
qed


subsection \<open>The claims about the crawl\<close>

text \<open>
  C4: every invocation of \<open>crawl\<close>, from any state in which the download counter is
  within \<open>max_downloads\<close> and counts the files written, ends (by return or by an
  exception) in a state in which the counter is still within \<open>max_downloads\<close> and still
  counts the files written. The counter is only incremented by \<open>save_content\<close>, after
  the guard \<open>download_count >= max_downloads\<close> has let the call through, so the number
  of resources persisted never exceeds \<open>max_downloads\<close>.
\<close>

theorem crawl_download_budget:
  "download_count st \<le> max_downloads self \<Longrightarrow>
   int (length (files st)) = download_count st \<Longrightarrow>
   crawl w self url0 depth st = (r, st') \<Longrightarrow>
   download_count st' \<le> max_downloads self \<and> int (length (files st')) = download_count st'"
  using crawl_budget_inv(1) [of self st w url0 depth] by (simp add: budget_inv_def)

theorem crawl_download_budget_witness:
  "download_count st0 \<le> max_downloads crawler1 \<and>
   int (length (files st0)) = download_count st0 \<and>
   crawl site crawler1 ''http://a.com'' 0 st0 = (None, st_final) \<and>
   download_count st_final = 2 \<and>
   download_count st_final \<le> max_downloads crawler1 \<and>
   int (length (files st_final)) = download_count st_final"
proof -
  have a: "download_count st0 \<le> max_downloads crawler1"
    by (simp add: st0_def crawler1_def)
  have b: "int (length (files st0)) = download_count st0"
    by (simp add: st0_def)
  have c: "download_count st_final = 2"
    by (simp add: st_final_def)
  show ?thesis
    using crawl_download_budget [OF a b crawl_home] a b c crawl_home by simp
qed

text \<open>
  C5: in a crawl started at depth 0 from a seed address, every request is made by a
  \<open>crawl\<close> invocation at a depth between 0 and \<open>max_depth\<close>, and the address requested
  has a link path of exactly that length from the seed. So no address is fetched whose
  shortest link path from the seed is longer than \<open>max_depth\<close>.
\<close>

theorem crawl_depth_bound:
  "crawl w self seed 0 st = (r, st') \<Longrightarrow> requests st = [] \<Longrightarrow>
   (url, depth) \<in> set (requests st') \<Longrightarrow>
   0 \<le> depth \<and> depth \<le> max_depth self \<and> link_path w self seed (nat depth) url"
proof -
  assume c: "crawl w self seed 0 st = (r, st')" and e: "requests st = []"
    and m: "(url, depth) \<in> set (requests st')"
  have "depth_inv w self seed st" using e by (simp add: depth_inv_def)
  moreover have "\<forall>u. clean_url self seed = Inr (Some u) \<longrightarrow> link_path w self seed (nat 0) u"
    by (simp add: link_path.seed)
  ultimately have "depth_inv w self seed (snd (crawl w self seed 0 st))"
    using crawl_depth_inv(1) [of 0 self seed w seed st] by simp
  then show ?thesis using c m by (auto simp: depth_inv_def)
qed

theorem crawl_depth_bound_witness:
  "crawl site crawler1 ''http://a.com'' 0 st0 = (None, st_final) \<and> requests st0 = [] \<and>
   (''http://a.com/about'', 1) \<in> set (requests st_final) \<and>
   (0::int) \<le> 1 \<and> 1 \<le> max_depth crawler1 \<and>
   link_path site crawler1 ''http://a.com'' (nat 1) ''http://a.com/about''"
proof -
  have e: "requests st0 = []" by (simp add: st0_def)
  have m: "(''http://a.com/about'', 1) \<in> set (requests st_final)"
    by (simp add: st_final_def)
  show ?thesis
    using crawl_depth_bound [OF crawl_home e m] crawl_home e m by simp
qed

text \<open>
  C9, as the code has it: when the guards of \<open>crawl\<close> let an address through and its
  fetch fails (\<open>requests.get\<close> raises a \<open>RequestException\<close>, or the status is between
  400 and 599, for which \<open>raise_for_status\<close> raises one), \<open>crawl\<close> returns without an
  exception; the address has joined \<open>visited_urls\<close>, one request was made, one warning
  is logged, and nothing else changes: no file is written, the download counter is
  unchanged and no link is followed. The loop over the links of the page that linked
  to the address goes on with the remaining links from that state.
\<close>

theorem crawl_fetch_failure:
  "passes_guards self url0 depth st url \<Longrightarrow> fetch_fails w url \<Longrightarrow>
   crawl w self url0 depth st =
     (None, st\<lparr>visited_urls := insert url (visited_urls st),
                  requests := requests st @ [(url, depth)],
                  warnings := warnings st @ [url]\<rparr>) \<and>
   (get link ''href'' '''' \<noteq> [] \<and> urljoin w page (get link ''href'' '''') = Inr url0 \<longrightarrow>
    crawl_links w self page (link # links) (depth - 1) st =
      crawl_links w self page links (depth - 1)
        (st\<lparr>visited_urls := insert url (visited_urls st),
             requests := requests st @ [(url, depth)],
             warnings := warnings st @ [url]\<rparr>))"
  using crawl_fetch_fails [of self url0 depth st url w]
    crawl_links_fetch_fails [of self url0 "depth - 1" st url w link page links]
  by simp

theorem crawl_fetch_failure_witness:
  "passes_guards crawler1 ''http://a.com/missing'' 1 st0 ''http://a.com/missing'' \<and>
   fetch_fails site ''http://a.com/missing'' \<and>
   crawl site crawler1 ''http://a.com/missing'' 1 st0 =
     (None, \<lparr>visited_urls = {''http://a.com/missing''}, download_count = 0, files = [],
              warnings = [''http://a.com/missing''],
              requests = [(''http://a.com/missing'', 1)]\<rparr>)"
proof -
  have pg: "passes_guards crawler1 ''http://a.com/missing'' 1 st0 ''http://a.com/missing''"
    by (simp add: passes_guards_def clean_missing valid_urls) (simp add: crawler1_def st0_def)
  show ?thesis
    using crawl_fetch_failure [OF pg missing_fails] pg missing_fails
    by (simp add: st0_def)
qed

text \<open>
  The claim as stated counts every status outside 200 to 299 as a failed fetch. A
  response with status 304 does not make \<open>raise_for_status\<close> raise: its body is saved
  and the download counter is incremented.
\<close>

theorem crawl_status_304_counterexample:
  "passes_guards crawler1 ''http://a.com/about'' 0 st0 ''http://a.com/about'' \<and>
   requests_get site ''http://a.com/about'' =
     Response \<lparr>status_code = 304, content_type_header = ''text/html'',
                final_url = ''http://a.com/about'', body_text = ''about'',
                content = ''about''\<rparr> \<and>
   crawl site crawler1 ''http://a.com/about'' 0 st0 =
     (None, \<lparr>visited_urls = {''http://a.com/about''}, download_count = 1,
              files = [(''out/about_text.html'', [])], warnings = [],
              requests = [(''http://a.com/about'', 0)]\<rparr>)"
proof -
  have pg: "passes_guards crawler1 ''http://a.com/about'' 0 st0 ''http://a.com/about''"
    by (simp add: passes_guards_def clean_about valid_urls) (simp add: crawler1_def st0_def)
  show ?thesis
    using pg crawl_about by (simp add: site_simps st_about_def)
qed

end
